theory Spec2Isabelle
  imports Main "HOL-Library.Word"
begin

section \<open>The availability store of beacon-kit (da/store/store.go)\<close>

text \<open>
  The file \<^verbatim>\<open>src/da/store/store.go\<close> holds two variants of the store, one after
  the other:
  \<^item> the first variant (lines 21-189, package paths without \<^verbatim>\<open>mod/\<close>): \<^verbatim>\<open>Persist\<close>
    is a sequential loop that writes no index record, \<^verbatim>\<open>GetBlobsFromStore\<close>
    decodes the index record with \<^verbatim>\<open>SlotCommitments.UnmarshalSSZ\<close>;
  \<^item> the second variant (lines 210-421, package paths under \<^verbatim>\<open>mod/\<close>):
    \<^verbatim>\<open>Persist\<close> starts one goroutine per sidecar and writes the index record by
    hand (count byte, then the commitments), \<^verbatim>\<open>GetBlobsFromStore\<close> decodes it by
    hand.
  \<^verbatim>\<open>IsDataAvailable\<close> is the same in both. The definitions of the first variant carry
  the suffix \<open>_v1\<close>, those of the second the suffix \<open>_v2\<close>.
\<close>

subsection \<open>Data\<close>

type_synonym byte = "8 word"
type_synonym bytes = "byte list"

text \<open>\<^verbatim>\<open>math.Slot\<close> is a \<^verbatim>\<open>uint64\<close>.\<close>

type_synonym slot = "64 word"

text \<open>
  Go errors. \<^verbatim>\<open>ErrAttemptedToStoreNilSidecar\<close> is the store's own error; every other
  error comes from a collaborator (the database, the SSZ codec) and is opaque.
\<close>

datatype error = ErrAttemptedToStoreNilSidecar | ExternalError string

text \<open>A run of a Go function either returns or panics.\<close>

datatype panic = NilPointerDereference | IndexOutOfRange | SliceBoundsOutOfRange

datatype 'a exec = Done 'a | Panics panic

text \<open>
  \<^verbatim>\<open>types.BlobSidecar\<close> is declared outside the sources at hand. The store reads its
  \<^verbatim>\<open>KzgCommitment\<close> (a 48-byte array) and the slot of its block header, and serialises
  it as a whole; the other fields are the ones the API backend reads
  (\<^verbatim>\<open>GetIndex\<close>, \<^verbatim>\<open>GetBlob\<close>, \<^verbatim>\<open>GetKzgProof\<close>, \<^verbatim>\<open>GetInclusionProof\<close>). A
  \<^verbatim>\<open>*BlobSidecar\<close> is a \<open>BlobSidecar option\<close>, \<open>None\<close> being the nil pointer.
\<close>

record BlobSidecar =
  Index :: "64 word"
  Blob :: bytes
  KzgCommitment :: bytes
  KzgProof :: bytes
  HeaderSlot :: slot
  InclusionProof :: "bytes list"

text \<open>
  \<^verbatim>\<open>IndexDB\<close> is an interface declared outside the sources at hand; it is a parameter
  of the model. \<open>'db\<close> is the state of the database; \<^verbatim>\<open>Has\<close> and \<^verbatim>\<open>Get\<close> read it,
  \<^verbatim>\<open>Set\<close> returns the new state with its error (\<open>None\<close> is Go's \<^verbatim>\<open>nil\<close> error).
\<close>

record 'db IndexDB =
  Has :: "'db \<Rightarrow> slot \<Rightarrow> bytes \<Rightarrow> error + bool"
  Get :: "'db \<Rightarrow> slot \<Rightarrow> bytes \<Rightarrow> error + bytes"
  Set :: "'db \<Rightarrow> slot \<Rightarrow> bytes \<Rightarrow> bytes \<Rightarrow> error option \<times> 'db"

text \<open>
  The store: the embedded \<^verbatim>\<open>IndexDB\<close> and \<^verbatim>\<open>chainSpec.WithinDAPeriod\<close>, with the SSZ
  methods the store calls on sidecars (\<^verbatim>\<open>MarshalSSZ\<close>, \<^verbatim>\<open>UnmarshalSSZ\<close>) and on
  \<^verbatim>\<open>types.SlotCommitments\<close> (\<^verbatim>\<open>UnmarshalSSZ\<close>, which calls the external
  \<^verbatim>\<open>ssz.DecodeFromBytes\<close>). The logger has no effect on results and is left out.
\<close>

record 'db Store =
  IndexDB :: "'db IndexDB"
  WithinDAPeriod :: "slot \<Rightarrow> slot \<Rightarrow> bool"
  MarshalSSZ :: "BlobSidecar \<Rightarrow> error + bytes"
  UnmarshalSSZ :: "bytes \<Rightarrow> error + BlobSidecar"
  SlotCommitments_UnmarshalSSZ :: "bytes \<Rightarrow> error + bytes list"

text \<open>\<^verbatim>\<open>const SlotCommitmentsKey = "slot_commitments"\<close>, as \<^verbatim>\<open>[]byte\<close>.\<close>

definition SlotCommitmentsKey :: bytes where
  "SlotCommitmentsKey = map of_char ''slot_commitments''"

text \<open>\<^verbatim>\<open>const COMMITMENT_SIZE = 48\<close>.\<close>

definition COMMITMENT_SIZE :: nat where
  "COMMITMENT_SIZE = 48"

subsection \<open>IsDataAvailable (lines 63-76 and 250-263)\<close>

text \<open>
  The loop over \<^verbatim>\<open>body.GetBlobKzgCommitments()\<close>: the first lookup that fails or
  reports absence returns false.
\<close>

fun IsDataAvailable :: "'db Store \<Rightarrow> 'db \<Rightarrow> slot \<Rightarrow> bytes list \<Rightarrow> bool" where
  "IsDataAvailable s db slot [] = True"
| "IsDataAvailable s db slot (commitment # rest) =
     (case Has (IndexDB s) db slot commitment of
        Inl err \<Rightarrow> False
      | Inr blockData \<Rightarrow>
          if \<not> blockData then False else IsDataAvailable s db slot rest)"

subsection \<open>Persist, first variant (lines 80-122)\<close>

text \<open>The loop of lines 103-116 over the sidecars, threading the database.\<close>

fun persist_loop ::
  "'db Store \<Rightarrow> slot \<Rightarrow> BlobSidecar option list \<Rightarrow> 'db \<Rightarrow> error option \<times> 'db" where
  "persist_loop s slot [] db = (None, db)"
| "persist_loop s slot (None # rest) db = (Some ErrAttemptedToStoreNilSidecar, db)"
| "persist_loop s slot (Some sc # rest) db =
     (case MarshalSSZ s sc of
        Inl err \<Rightarrow> (Some err, db)
      | Inr bz \<Rightarrow>
          (case Set (IndexDB s) db slot (KzgCommitment sc) bz of
             (Some err, db') \<Rightarrow> (Some err, db')
           | (None, db') \<Rightarrow> persist_loop s slot rest db'))"

text \<open>
  \<^verbatim>\<open>types.BlobSidecars\<close> is a slice here: the nil slice and the empty slice are both
  \<open>[]\<close>. \<^verbatim>\<open>sidecars[0].SignedBeaconBlockHeader\<close> on a nil first entry is a nil
  pointer dereference.
\<close>

definition Persist_v1 ::
  "'db Store \<Rightarrow> slot \<Rightarrow> BlobSidecar option list \<Rightarrow> 'db \<Rightarrow> error option exec \<times> 'db" where
  "Persist_v1 s slot sidecars db =
     (case sidecars of
        [] \<Rightarrow> (Done None, db)
      | None # _ \<Rightarrow> (Panics NilPointerDereference, db)
      | Some sc0 # _ \<Rightarrow>
          if \<not> WithinDAPeriod s (HeaderSlot sc0) slot then (Done None, db)
          else (case persist_loop s slot sidecars db of (r, db') \<Rightarrow> (Done r, db')))"

subsection \<open>Persist, second variant (lines 267-354)\<close>

text \<open>
  The body of the goroutine of lines 302-321, for the sidecar at \<open>index\<close>. The state
  is the error channel (the errors sent so far, oldest first), the
  \<^verbatim>\<open>commitments\<close> slice and the database.
\<close>

definition persist_task ::
  "'db Store \<Rightarrow> slot \<Rightarrow> nat \<Rightarrow> BlobSidecar \<Rightarrow>
   error list \<times> bytes list \<times> 'db \<Rightarrow> error list \<times> bytes list \<times> 'db" where
  "persist_task s slot index sc st =
     (case st of (errChan, commitments, db) \<Rightarrow>
        (case MarshalSSZ s sc of
           Inl err \<Rightarrow> (errChan @ [err], commitments, db)
         | Inr bz \<Rightarrow>
             (case Set (IndexDB s) db slot (KzgCommitment sc) bz of
                (Some err, db') \<Rightarrow> (errChan @ [err], commitments, db')
              | (None, db') \<Rightarrow>
                  (errChan, commitments[index := KzgCommitment sc], db'))))"

text \<open>
  The goroutines run in an order the Go scheduler chooses. A schedule is the list of
  goroutine indices in the order in which their bodies run; each body makes one
  database call, taken as atomic. A schedule of \<open>n\<close> goroutines is a permutation of
  \<open>0, ..., n - 1\<close>.
\<close>

definition is_schedule :: "nat \<Rightarrow> nat list \<Rightarrow> bool" where
  "is_schedule n sched = (distinct sched \<and> set sched = {..<n})"

definition run_persist_tasks ::
  "'db Store \<Rightarrow> slot \<Rightarrow> BlobSidecar list \<Rightarrow> nat list \<Rightarrow>
   error list \<times> bytes list \<times> 'db \<Rightarrow> error list \<times> bytes list \<times> 'db" where
  "run_persist_tasks s slot spawned sched st =
     fold (\<lambda>i st. if i < length spawned then persist_task s slot i (spawned ! i) st else st)
       sched st"

text \<open>
  Lines 335-342: the count byte \<^verbatim>\<open>byte(len(commitments))\<close> (the length modulo 256),
  then the commitments, concatenated.
\<close>

definition encode_commitments :: "bytes list \<Rightarrow> bytes" where
  "encode_commitments commitments = of_nat (length commitments) # concat commitments"

text \<open>
  \<^verbatim>\<open>*types.BlobSidecars\<close> is a pointer to a struct holding the slice: \<open>None\<close> is the
  nil pointer. The loop of lines 296-322 returns at the first nil entry, after it has
  started the goroutines of the entries before it; these still run, and the database
  returned is the one they leave behind. With no nil entry all goroutines are joined
  (\<^verbatim>\<open>wg.Wait()\<close>), the first error of the channel is returned if there is one, and
  otherwise the index record is written.
\<close>

definition Persist_v2 ::
  "'db Store \<Rightarrow> nat list \<Rightarrow> slot \<Rightarrow> BlobSidecar option list option \<Rightarrow> 'db \<Rightarrow>
   error option exec \<times> 'db" where
  "Persist_v2 s sched slot sidecars db =
     (case sidecars of
        None \<Rightarrow> (Done None, db)
      | Some [] \<Rightarrow> (Done None, db)
      | Some (None # _) \<Rightarrow> (Panics NilPointerDereference, db)
      | Some (Some sc0 # rest) \<Rightarrow>
          if \<not> WithinDAPeriod s (HeaderSlot sc0) slot then (Done None, db)
          else
            let scs = Some sc0 # rest;
                spawned = map the (takeWhile (\<lambda>sidecar. sidecar \<noteq> None) scs)
            in (case run_persist_tasks s slot spawned sched
                       ([], replicate (length scs) [], db) of
                  (errChan, commitments, db') \<Rightarrow>
                    if length spawned < length scs
                    then (Done (Some ErrAttemptedToStoreNilSidecar), db')
                    else (case errChan of
                            err # _ \<Rightarrow> (Done (Some err), db')
                          | [] \<Rightarrow>
                              (case Set (IndexDB s) db' slot SlotCommitmentsKey
                                      (encode_commitments commitments) of
                                 (Some err, db'') \<Rightarrow> (Done (Some err), db'')
                               | (None, db'') \<Rightarrow> (Done None, db'')))))"

subsection \<open>GetBlobsFromStore (lines 125-189 and 357-421)\<close>

text \<open>
  The slice expression \<^verbatim>\<open>b[start:end]\<close> on a slice \<open>b\<close>. Go bounds it by the
  capacity of \<open>b\<close>, not by its length: \<open>0 \<le> start \<le> end \<le> cap(b)\<close>, and within the
  capacity it reads the backing array past the length of \<open>b\<close>. \<open>spare\<close> is what the
  backing array holds past the length of \<open>b\<close>, so \<open>cap(b)\<close> is
  \<open>length b + length spare\<close>.
\<close>

definition slice :: "bytes \<Rightarrow> bytes \<Rightarrow> nat \<Rightarrow> nat \<Rightarrow> bytes exec" where
  "slice b spare start end =
     (if length b + length spare < end \<or> end < start then Panics SliceBoundsOutOfRange
      else Done (take (end - start) (drop start (b @ spare))))"

text \<open>The loop of lines 369-373, over \<open>i = 0, ..., numCommitments - 1\<close>.\<close>

fun decode_loop :: "bytes \<Rightarrow> bytes \<Rightarrow> nat list \<Rightarrow> bytes list exec" where
  "decode_loop serializedCommitments spare [] = Done []"
| "decode_loop serializedCommitments spare (i # is) =
     (let start = 1 + i * COMMITMENT_SIZE; end = start + COMMITMENT_SIZE
      in case slice serializedCommitments spare start end of
           Panics p \<Rightarrow> Panics p
         | Done c \<Rightarrow>
             (case decode_loop serializedCommitments spare is of
                Panics p \<Rightarrow> Panics p
              | Done cs \<Rightarrow> Done (c # cs)))"

text \<open>
  Lines 366-373. The index expression \<^verbatim>\<open>serializedCommitments[0]\<close> is bounded by the
  length, whatever the capacity: on an empty slice it panics.
\<close>

definition decode_commitments :: "bytes \<Rightarrow> bytes \<Rightarrow> bytes list exec" where
  "decode_commitments serializedCommitments spare =
     (case serializedCommitments of
        [] \<Rightarrow> Panics IndexOutOfRange
      | count # _ \<Rightarrow> decode_loop serializedCommitments spare [0..<unat count])"

text \<open>
  The body of the goroutine of lines 153-174 (385-406): it reads and decodes one
  sidecar and stores it at its index. The database is only read.
\<close>

definition get_task ::
  "'db Store \<Rightarrow> 'db \<Rightarrow> slot \<Rightarrow> nat \<Rightarrow> bytes \<Rightarrow>
   error list \<times> BlobSidecar option list \<Rightarrow> error list \<times> BlobSidecar option list" where
  "get_task s db slot index comm st =
     (case st of (errChan, sidecars) \<Rightarrow>
        (case Get (IndexDB s) db slot comm of
           Inl err \<Rightarrow> (errChan @ [err], sidecars)
         | Inr bz \<Rightarrow>
             (case UnmarshalSSZ s bz of
                Inl err \<Rightarrow> (errChan @ [err], sidecars)
              | Inr sidecar \<Rightarrow> (errChan, sidecars[index := Some sidecar]))))"

text \<open>
  Lines 143-188 (375-420): the goroutines run in the order of the schedule, all are
  joined, and the first error of the channel is returned if there is one.
\<close>

definition fetch_sidecars ::
  "'db Store \<Rightarrow> nat list \<Rightarrow> 'db \<Rightarrow> slot \<Rightarrow> bytes list \<Rightarrow> error + BlobSidecar option list" where
  "fetch_sidecars s sched db slot commitments =
     (case fold (\<lambda>i st. if i < length commitments
                         then get_task s db slot i (commitments ! i) st else st)
             sched ([], replicate (length commitments) None) of
        (errChan, sidecars) \<Rightarrow>
          (case errChan of err # _ \<Rightarrow> Inl err | [] \<Rightarrow> Inr sidecars))"

definition GetBlobsFromStore_v1 ::
  "'db Store \<Rightarrow> nat list \<Rightarrow> 'db \<Rightarrow> slot \<Rightarrow> (error + BlobSidecar option list) exec" where
  "GetBlobsFromStore_v1 s sched db slot =
     (case Get (IndexDB s) db slot SlotCommitmentsKey of
        Inl err \<Rightarrow> Done (Inr [])
      | Inr serializedCommitments \<Rightarrow>
          (case SlotCommitments_UnmarshalSSZ s serializedCommitments of
             Inl err \<Rightarrow> Done (Inl err)
           | Inr commitments \<Rightarrow> Done (fetch_sidecars s sched db slot commitments)))"

text \<open>
  The second variant. \<open>spare\<close> is what the backing array of the slice that \<^verbatim>\<open>Get\<close>
  returned for the index record holds past the record (nothing when the slice is
  as long as its capacity); the interface does not say what capacity the database
  gives the slices it returns.
\<close>

definition GetBlobsFromStore_v2 ::
  "'db Store \<Rightarrow> nat list \<Rightarrow> bytes \<Rightarrow> 'db \<Rightarrow> slot \<Rightarrow>
   (error + BlobSidecar option list) exec" where
  "GetBlobsFromStore_v2 s sched spare db slot =
     (case Get (IndexDB s) db slot SlotCommitmentsKey of
        Inl err \<Rightarrow> Done (Inr [])
      | Inr serializedCommitments \<Rightarrow>
          (case decode_commitments serializedCommitments spare of
             Panics p \<Rightarrow> Panics p
           | Done commitments \<Rightarrow> Done (fetch_sidecars s sched db slot commitments)))"

subsection \<open>Test doubles of the database\<close>

text \<open>
  Modelled from the spec: the Index DB as an in-memory key-value store (the interface
  and its implementation are outside the sources at hand). A state maps (slot, key)
  to the value stored; \<^verbatim>\<open>has\<close> reports presence, \<^verbatim>\<open>get\<close> reports a missing key as an
  error, \<^verbatim>\<open>set\<close> stores the value and does not fail.
\<close>

type_synonym memdb = "slot \<times> bytes \<Rightarrow> bytes option"

definition ErrNotFound :: error where
  "ErrNotFound = ExternalError ''not found''"

definition MemDB :: "memdb IndexDB" where
  "MemDB =
     \<lparr> Has = (\<lambda>db slot key. Inr (db (slot, key) \<noteq> None)),
       Get = (\<lambda>db slot key. case db (slot, key) of None \<Rightarrow> Inl ErrNotFound | Some v \<Rightarrow> Inr v),
       Set = (\<lambda>db slot key v. (None, db((slot, key) \<mapsto> v))) \<rparr>"

text \<open>
  A database that records the writes issued to it: it behaves as the database it
  wraps and appends every \<^verbatim>\<open>Set\<close> call (slot, key, value) to a log, whether the call
  fails or not.
\<close>

type_synonym db_write = "slot \<times> bytes \<times> bytes"

definition recording :: "'db IndexDB \<Rightarrow> ('db \<times> db_write list) IndexDB" where
  "recording d =
     \<lparr> Has = (\<lambda>st. Has d (fst st)),
       Get = (\<lambda>st. Get d (fst st)),
       Set = (\<lambda>st slot key v.
                case Set d (fst st) slot key v of
                  (r, db') \<Rightarrow> (r, (db', snd st @ [(slot, key, v)]))) \<rparr>"

definition with_log :: "'db Store \<Rightarrow> ('db \<times> db_write list) Store" where
  "with_log s =
     \<lparr> IndexDB = recording (IndexDB s),
       WithinDAPeriod = WithinDAPeriod s,
       MarshalSSZ = MarshalSSZ s,
       UnmarshalSSZ = UnmarshalSSZ s,
       SlotCommitments_UnmarshalSSZ = SlotCommitments_UnmarshalSSZ s \<rparr>"

text \<open>
  A sidecar codec for tests: the commitment followed by the blob. It is faithful on
  the sidecars made by \<open>mk_sidecar\<close> from a 48-byte commitment.
\<close>

definition mk_sidecar :: "bytes \<Rightarrow> bytes \<Rightarrow> BlobSidecar" where
  "mk_sidecar commitment blob =
     \<lparr> Index = 0, Blob = blob, KzgCommitment = commitment, KzgProof = [],
       HeaderSlot = 0, InclusionProof = [] \<rparr>"

definition test_MarshalSSZ :: "BlobSidecar \<Rightarrow> error + bytes" where
  "test_MarshalSSZ sc = Inr (KzgCommitment sc @ Blob sc)"

definition test_UnmarshalSSZ :: "bytes \<Rightarrow> error + BlobSidecar" where
  "test_UnmarshalSSZ bz =
     (if length bz < 48 then Inl (ExternalError ''short buffer'')
      else Inr (mk_sidecar (take 48 bz) (drop 48 bz)))"

text \<open>
  A store for tests over the in-memory database, with a DA period of 4096 slots
  counted from the slot of the block. The same store over a database whose writes
  all fail, and over one whose reads all fail, stand for a faulty disk.
\<close>

definition TestStore :: "memdb Store" where
  "TestStore =
     \<lparr> IndexDB = MemDB,
       WithinDAPeriod = (\<lambda>block current. unat current \<le> unat block + 4096),
       MarshalSSZ = test_MarshalSSZ,
       UnmarshalSSZ = test_UnmarshalSSZ,
       SlotCommitments_UnmarshalSSZ = (\<lambda>_. Inl (ExternalError ''ssz'')) \<rparr>"

definition ErrDisk :: error where
  "ErrDisk = ExternalError ''disk failure''"

definition FailingStore :: "memdb Store" where
  "FailingStore = TestStore \<lparr> IndexDB := MemDB \<lparr> Set := (\<lambda>db slot key v. (Some ErrDisk, db)) \<rparr> \<rparr>"

definition UnreadableStore :: "memdb Store" where
  "UnreadableStore = TestStore \<lparr> IndexDB := MemDB \<lparr> Get := (\<lambda>db slot key. Inl ErrDisk) \<rparr> \<rparr>"

definition commitment_a :: bytes where
  "commitment_a = replicate 48 1"

definition commitment_b :: bytes where
  "commitment_b = replicate 48 2"

section \<open>Keys and test data\<close>

text \<open>
  A commitment is 48 bytes long and the reserved key 16: a sidecar record is never
  stored under the key of the index record.
\<close>

lemma length_SlotCommitmentsKey: "length SlotCommitmentsKey = 16"
  by (simp add: SlotCommitmentsKey_def)

lemma commitment_not_index_key:
  "length c = 48 \<Longrightarrow> c \<noteq> SlotCommitmentsKey \<and> SlotCommitmentsKey \<noteq> c"
  using length_SlotCommitmentsKey by auto

lemma test_commitments [simp]:
  "length commitment_a = 48" "length commitment_b = 48"
  "commitment_a \<noteq> commitment_b" "commitment_b \<noteq> commitment_a"
  "commitment_a \<noteq> SlotCommitmentsKey" "SlotCommitmentsKey \<noteq> commitment_a"
  "commitment_b \<noteq> SlotCommitmentsKey" "SlotCommitmentsKey \<noteq> commitment_b"
  using commitment_not_index_key [of commitment_a] commitment_not_index_key [of commitment_b]
  by (simp_all add: commitment_a_def commitment_b_def)

lemmas test_defs = TestStore_def FailingStore_def UnreadableStore_def MemDB_def with_log_def
  recording_def mk_sidecar_def test_MarshalSSZ_def test_UnmarshalSSZ_def ErrDisk_def
  ErrNotFound_def

section \<open>Availability queries\<close>

text \<open>
  C1. For every slot and every list of block commitments, \<open>IsDataAvailable\<close> is true
  if and only if every commitment's presence lookup at (slot, commitment) succeeds
  and reports the record present; one absent commitment or one failing lookup makes
  it false. The result is a boolean: the function has no error to return.
\<close>

theorem IsDataAvailable_iff_all_present:
  "IsDataAvailable s db slot commitments \<longleftrightarrow>
     (\<forall>c \<in> set commitments. Has (IndexDB s) db slot c = Inr True)"
proof (induction commitments)
  case Nil
  show ?case by simp
next
  case (Cons c cs)
  show ?case
  proof (cases "Has (IndexDB s) db slot c")
    case (Inl err)
    then show ?thesis by simp
  next
    case (Inr present)
    with Cons.IH show ?thesis by simp
  qed
qed

theorem IsDataAvailable_iff_all_present_witness:
  "IsDataAvailable TestStore (Map.empty((5, commitment_a) \<mapsto> [])) 5 [commitment_a] \<and>
   \<not> IsDataAvailable TestStore (Map.empty((5, commitment_a) \<mapsto> [])) 5
       [commitment_a, commitment_b]"
  using IsDataAvailable_iff_all_present
          [of TestStore "Map.empty((5, commitment_a) \<mapsto> [])" 5 "[commitment_a]"]
        IsDataAvailable_iff_all_present
          [of TestStore "Map.empty((5, commitment_a) \<mapsto> [])" 5 "[commitment_a, commitment_b]"]
  by (simp add: TestStore_def MemDB_def commitment_a_def commitment_b_def)

section \<open>The slot-commitment codec of the second variant\<close>

lemma length_concat_fixed:
  "\<forall>c \<in> set cs. length c = n \<Longrightarrow> length (concat cs) = length cs * n"
  by (induction cs) auto

lemma chunk_of_concat:
  "\<forall>c \<in> set cs. length c = n \<Longrightarrow> i < length cs \<Longrightarrow>
     take n (drop (i * n) (concat cs)) = cs ! i"
proof (induction cs arbitrary: i)
  case Nil
  then show ?case by simp
next
  case (Cons c cs)
  show ?case
  proof (cases i)
    case 0
    with Cons.prems show ?thesis by simp
  next
    case (Suc j)
    with Cons.prems have "take n (drop (j * n) (concat cs)) = cs ! j"
      by (intro Cons.IH) auto
    with Suc Cons.prems show ?thesis by (simp add: add.commute)
  qed
qed

lemma slice_encoded:
  assumes "\<forall>c \<in> set cs. length c = COMMITMENT_SIZE" and "i < length cs"
  shows "slice (b # concat cs) spare (1 + i * COMMITMENT_SIZE)
           (1 + i * COMMITMENT_SIZE + COMMITMENT_SIZE) = Done (cs ! i)"
proof -
  have len: "length (concat cs) = length cs * COMMITMENT_SIZE"
    using assms(1) by (rule length_concat_fixed)
  moreover have "(i + 1) * COMMITMENT_SIZE \<le> length cs * COMMITMENT_SIZE"
    using assms(2) by (intro mult_le_mono1) simp
  ultimately have within: "i * COMMITMENT_SIZE + COMMITMENT_SIZE \<le> length (concat cs)"
    by simp
  then have "take COMMITMENT_SIZE (drop (i * COMMITMENT_SIZE) (concat cs @ spare))
      = take COMMITMENT_SIZE (drop (i * COMMITMENT_SIZE) (concat cs))"
    by simp
  with within show ?thesis
    using chunk_of_concat [OF assms] by (simp add: slice_def)
qed

lemma decode_loop_encoded:
  assumes "\<forall>c \<in> set cs. length c = COMMITMENT_SIZE" and "\<forall>i \<in> set idx. i < length cs"
  shows "decode_loop (b # concat cs) spare idx = Done (map (\<lambda>i. cs ! i) idx)"
  using assms(2)
proof (induction idx)
  case Nil
  show ?case by simp
next
  case (Cons i idx)
  then show ?case
    using slice_encoded [OF assms(1), of i b spare] by (simp add: Let_def)
qed

text \<open>
  The count byte holds lengths up to 255, so the round trip holds that far. Every
  slice the decoder takes lies within the encoding: the capacity plays no part.
\<close>

lemma decode_encode_commitments:
  assumes "length cs < 256" and "\<forall>c \<in> set cs. length c = COMMITMENT_SIZE"
  shows "decode_commitments (encode_commitments cs) spare = Done cs"
proof -
  have "unat (of_nat (length cs) :: byte) = length cs"
    using assms(1) by (simp add: unat_of_nat)
  then show ?thesis
    using decode_loop_encoded [OF assms(2), of "[0..<length cs]" _ spare]
    by (simp add: decode_commitments_def encode_commitments_def map_nth)
qed

text \<open>
  C6. For every ordered list of 0 to 6 commitments, each exactly 48 bytes long,
  decoding the encoding of the list (one count byte, then the 48-byte entries
  concatenated) returns the list itself, whatever the capacity of the slice that
  holds the encoding.
\<close>

theorem codec_round_trip:
  "length commitments \<le> 6 \<Longrightarrow> \<forall>c \<in> set commitments. length c = 48 \<Longrightarrow>
     decode_commitments (encode_commitments commitments) spare = Done commitments"
  using decode_encode_commitments [of commitments spare] by (simp add: COMMITMENT_SIZE_def)

theorem codec_round_trip_witness:
  "length [commitment_a, commitment_b] \<le> 6 \<and>
   length commitment_a = 48 \<and> length commitment_b = 48 \<and>
   decode_commitments (encode_commitments [commitment_a, commitment_b]) [] =
     Done [commitment_a, commitment_b]"
  using codec_round_trip [of "[commitment_a, commitment_b]" "[]"]
  by (simp add: commitment_a_def commitment_b_def)

section \<open>Reading a slot whose index record cannot be read\<close>

text \<open>
  C8. For every slot whose reserved index key is absent from the database (a slot
  never persisted), \<open>GetBlobsFromStore\<close> returns an empty collection and no error,
  in both variants. Absence is a missing entry of the in-memory database, which
  reports it as an error of \<open>Get\<close>.
\<close>

theorem GetBlobsFromStore_absent_index_empty:
  "IndexDB s = MemDB \<Longrightarrow> db (slot, SlotCommitmentsKey) = None \<Longrightarrow>
     GetBlobsFromStore_v1 s sched db slot = Done (Inr []) \<and>
     GetBlobsFromStore_v2 s sched spare db slot = Done (Inr [])"
  by (simp add: GetBlobsFromStore_v1_def GetBlobsFromStore_v2_def MemDB_def)

theorem GetBlobsFromStore_absent_index_empty_witness:
  "IndexDB TestStore = MemDB \<and> Map.empty (9 :: slot, SlotCommitmentsKey) = None \<and>
   GetBlobsFromStore_v1 TestStore [] Map.empty 9 = Done (Inr []) \<and>
   GetBlobsFromStore_v2 TestStore [] [] Map.empty 9 = Done (Inr [])"
  using GetBlobsFromStore_absent_index_empty [of TestStore Map.empty 9 "[]" "[]"]
  by (simp add: TestStore_def)

text \<open>
  C10. For every slot, if the read of the reserved index key fails with any error at
  all, \<open>GetBlobsFromStore\<close> returns an empty collection and no error, in both
  variants: the answer is the one a slot never persisted gets.
\<close>

theorem GetBlobsFromStore_read_error_empty:
  "Get (IndexDB s) db slot SlotCommitmentsKey = Inl err \<Longrightarrow>
     GetBlobsFromStore_v1 s sched db slot = Done (Inr []) \<and>
     GetBlobsFromStore_v2 s sched spare db slot = Done (Inr [])"
  by (simp add: GetBlobsFromStore_v1_def GetBlobsFromStore_v2_def)

text \<open>The witness: the index record is stored, and the disk cannot be read.\<close>

theorem GetBlobsFromStore_read_error_empty_witness:
  "Get (IndexDB UnreadableStore) (Map.empty((9, SlotCommitmentsKey) \<mapsto> [0])) 9
     SlotCommitmentsKey = Inl ErrDisk \<and>
   GetBlobsFromStore_v1 UnreadableStore [] (Map.empty((9, SlotCommitmentsKey) \<mapsto> [0])) 9
     = Done (Inr []) \<and>
   GetBlobsFromStore_v2 UnreadableStore [] [] (Map.empty((9, SlotCommitmentsKey) \<mapsto> [0])) 9
     = Done (Inr [])"
  using GetBlobsFromStore_read_error_empty
          [of UnreadableStore "Map.empty((9, SlotCommitmentsKey) \<mapsto> [0])" 9 ErrDisk "[]" "[]"]
  by (simp add: UnreadableStore_def)

section \<open>Persist outside the DA period\<close>

text \<open>
  C9. For every non-empty sidecar list whose first sidecar's block-header slot is
  outside the DA retention window relative to the given current slot, \<open>Persist\<close>
  returns success and performs no database write, in both variants: the database is
  returned as it was, and the log of a recording database stays as it was.
\<close>

theorem Persist_outside_DA_period_no_writes:
  "\<not> WithinDAPeriod s (HeaderSlot sc0) slot \<Longrightarrow>
     Persist_v1 s slot (Some sc0 # rest) db = (Done None, db) \<and>
     Persist_v2 s sched slot (Some (Some sc0 # rest)) db = (Done None, db) \<and>
     Persist_v1 (with_log s) slot (Some sc0 # rest) (db, log) = (Done None, (db, log)) \<and>
     Persist_v2 (with_log s) sched slot (Some (Some sc0 # rest)) (db, log)
       = (Done None, (db, log))"
  by (simp add: Persist_v1_def Persist_v2_def with_log_def)

theorem Persist_outside_DA_period_no_writes_witness:
  "\<not> WithinDAPeriod TestStore (HeaderSlot (mk_sidecar commitment_a [7])) 5000 \<and>
   Persist_v1 TestStore 5000 [Some (mk_sidecar commitment_a [7]), None] Map.empty
     = (Done None, Map.empty) \<and>
   Persist_v2 TestStore [0] 5000 (Some [Some (mk_sidecar commitment_a [7]), None]) Map.empty
     = (Done None, Map.empty) \<and>
   Persist_v1 (with_log TestStore) 5000 [Some (mk_sidecar commitment_a [7]), None]
     (Map.empty, []) = (Done None, (Map.empty, [])) \<and>
   Persist_v2 (with_log TestStore) [0] 5000 (Some [Some (mk_sidecar commitment_a [7]), None])
     (Map.empty, []) = (Done None, (Map.empty, []))"
  using Persist_outside_DA_period_no_writes
          [of TestStore "mk_sidecar commitment_a [7]" 5000 "[None]" Map.empty "[0]" "[]"]
  by (simp add: TestStore_def mk_sidecar_def)

section \<open>Runs of Persist over a recording database\<close>

lemma with_log_simps [simp]:
  "WithinDAPeriod (with_log s) = WithinDAPeriod s"
  "MarshalSSZ (with_log s) = MarshalSSZ s"
  "UnmarshalSSZ (with_log s) = UnmarshalSSZ s"
  "Has (IndexDB (with_log s)) st = Has (IndexDB s) (fst st)"
  "Get (IndexDB (with_log s)) st = Get (IndexDB s) (fst st)"
  "Set (IndexDB (with_log s)) st slot key v =
     (case Set (IndexDB s) (fst st) slot key v of (r, db') \<Rightarrow> (r, (db', snd st @ [(slot, key, v)])))"
  by (simp_all add: with_log_def recording_def)

lemma run_persist_tasks_Cons:
  "run_persist_tasks s slot spawned (i # sched) st =
     run_persist_tasks s slot spawned sched
       (if i < length spawned then persist_task s slot i (spawned ! i) st else st)"
  by (simp add: run_persist_tasks_def)

lemma run_persist_tasks_Nil: "run_persist_tasks s slot spawned [] st = st"
  by (simp add: run_persist_tasks_def)



text \<open>
  The loop of the first variant writes the sidecars before the first nil entry, and
  nothing else.
\<close>

lemma persist_loop_log:
  assumes "persist_loop (with_log s) slot sidecars (db, log) = (r, (db', log'))"
  shows "\<exists>ws. log' = log @ ws \<and> (\<forall>w \<in> set ws.
       \<exists>sc \<in> set (map the (takeWhile (\<lambda>sidecar. sidecar \<noteq> None) sidecars)).
         fst (snd w) = KzgCommitment sc)"
  using assms
proof (induction sidecars arbitrary: db log)
  case Nil
  then show ?case by simp
next
  case (Cons x sidecars)
  show ?case
  proof (cases x)
    case None
    with Cons.prems show ?thesis by simp
  next
    case (Some sc)
    show ?thesis
    proof (cases "MarshalSSZ s sc")
      case (Inl err)
      with Some Cons.prems show ?thesis by simp
    next
      case (Inr bz)
      obtain e db1 where set: "Set (IndexDB s) db slot (KzgCommitment sc) bz = (e, db1)"
        by (cases "Set (IndexDB s) db slot (KzgCommitment sc) bz")
      show ?thesis
      proof (cases e)
        case (Some err)
        with \<open>x = Some sc\<close> Inr set Cons.prems have "log' = log @ [(slot, KzgCommitment sc, bz)]"
          by simp
        with \<open>x = Some sc\<close> show ?thesis by auto
      next
        case None
        with \<open>x = Some sc\<close> Inr set Cons.prems
        have "persist_loop (with_log s) slot sidecars (db1, log @ [(slot, KzgCommitment sc, bz)]) = (r, (db', log'))"
          by simp
        from Cons.IH [OF this] obtain ws where
          "log' = (log @ [(slot, KzgCommitment sc, bz)]) @ ws"
          "\<forall>w \<in> set ws.
             \<exists>sc \<in> set (map the (takeWhile (\<lambda>sidecar. sidecar \<noteq> None) sidecars)).
               fst (snd w) = KzgCommitment sc" by blast
        with \<open>x = Some sc\<close> show ?thesis
          by (intro exI [of _ "(slot, KzgCommitment sc, bz) # ws"]) auto
      qed
    qed
  qed
qed

text \<open>
  The writes of the first variant, in full: for some \<open>k\<close>, one write per sidecar of
  the first \<open>k\<close> entries, in input order; all entries when the loop succeeds.
\<close>

lemma persist_loop_trace:
  assumes "persist_loop (with_log s) slot sidecars (db, log) = (r, (db', log'))"
  shows "\<exists>ws k. log' = log @ ws \<and> k \<le> length sidecars \<and>
           list_all2 (\<lambda>w x. \<exists>sc bz. x = Some sc \<and> MarshalSSZ s sc = Inr bz \<and>
                              w = (slot, KzgCommitment sc, bz)) ws (take k sidecars) \<and>
           (r = None \<longrightarrow> k = length sidecars)"
  using assms
proof (induction sidecars arbitrary: db log)
  case Nil
  then show ?case by simp
next
  case (Cons x sidecars)
  show ?case
  proof (cases x)
    case None
    with Cons.prems have "log' = log @ []" "r \<noteq> None" by auto
    then show ?thesis by (intro exI [of _ "[]"] exI [of _ 0]) auto
  next
    case (Some sc)
    show ?thesis
    proof (cases "MarshalSSZ s sc")
      case (Inl err)
      with Some Cons.prems have "log' = log @ []" "r \<noteq> None" by auto
      then show ?thesis by (intro exI [of _ "[]"] exI [of _ 0]) auto
    next
      case (Inr bz)
      let ?w = "(slot, KzgCommitment sc, bz)"
      obtain e db1 where set: "Set (IndexDB s) db slot (KzgCommitment sc) bz = (e, db1)"
        by (cases "Set (IndexDB s) db slot (KzgCommitment sc) bz")
      show ?thesis
      proof (cases e)
        case (Some err)
        with \<open>x = Some sc\<close> Inr set Cons.prems have "log' = log @ [?w]" "r \<noteq> None"
          by auto
        with \<open>x = Some sc\<close> Inr show ?thesis
          by (intro exI [of _ "[?w]"] exI [of _ 1]) auto
      next
        case None
        with \<open>x = Some sc\<close> Inr set Cons.prems
        have "persist_loop (with_log s) slot sidecars (db1, log @ [?w]) = (r, (db', log'))"
          by simp
        from Cons.IH [OF this] obtain ws k where
          "log' = (log @ [?w]) @ ws" "k \<le> length sidecars"
          "list_all2 (\<lambda>w x. \<exists>sc bz. x = Some sc \<and> MarshalSSZ s sc = Inr bz \<and>
                              w = (slot, KzgCommitment sc, bz)) ws (take k sidecars)"
          "r = None \<longrightarrow> k = length sidecars" by blast
        with \<open>x = Some sc\<close> Inr show ?thesis
          by (intro exI [of _ "?w # ws"] exI [of _ "Suc k"]) simp
      qed
    qed
  qed
qed

text \<open>
  The writes of the second variant: one per goroutine, in the order of the schedule;
  with no error in the channel every goroutine has stored its commitment at its index.
\<close>

lemma run_persist_tasks_trace:
  assumes "run_persist_tasks (with_log s) slot scs js (errs, cms, (db, log)) = (errs', cms', (db', log'))"
    and "\<forall>i \<in> set js. i < length scs"
  shows "\<exists>es ws. errs' = errs @ es \<and> log' = log @ ws \<and>
           (es = [] \<longrightarrow>
              cms' = fold (\<lambda>i c. c[i := KzgCommitment (scs ! i)]) js cms \<and>
              list_all2 (\<lambda>w i. \<exists>bz. MarshalSSZ s (scs ! i) = Inr bz \<and>
                                 w = (slot, KzgCommitment (scs ! i), bz)) ws js)"
  using assms
proof (induction js arbitrary: errs cms db log)
  case Nil
  then show ?case by (simp add: run_persist_tasks_Nil)
next
  case (Cons i js)
  then have i: "i < length scs" and js: "\<forall>i \<in> set js. i < length scs" by simp_all
  let ?sc = "scs ! i"
  obtain errs1 cms1 db1 log1 where
    step: "persist_task (with_log s) slot i ?sc (errs, cms, (db, log)) = (errs1, cms1, (db1, log1))"
    using prod_cases4 by blast
  with i Cons.prems(1)
  have "run_persist_tasks (with_log s) slot scs js (errs1, cms1, (db1, log1)) = (errs', cms', (db', log'))"
    by (simp add: run_persist_tasks_Cons)
  from Cons.IH [OF this js] obtain es ws where
    rest: "errs' = errs1 @ es" "log' = log1 @ ws"
      "es = [] \<longrightarrow>
         cms' = fold (\<lambda>i c. c[i := KzgCommitment (scs ! i)]) js cms1 \<and>
         list_all2 (\<lambda>w i. \<exists>bz. MarshalSSZ s (scs ! i) = Inr bz \<and>
                            w = (slot, KzgCommitment (scs ! i), bz)) ws js"
    by blast
  show ?case
  proof (cases "MarshalSSZ s ?sc")
    case (Inl err)
    with step have "errs1 = errs @ [err]" "log1 = log" by (simp_all add: persist_task_def)
    with rest show ?thesis by (intro exI [of _ "err # es"] exI [of _ ws]) simp
  next
    case (Inr bz)
    let ?w = "(slot, KzgCommitment ?sc, bz)"
    obtain e db2 where set: "Set (IndexDB s) db slot (KzgCommitment ?sc) bz = (e, db2)"
      by (cases "Set (IndexDB s) db slot (KzgCommitment ?sc) bz")
    show ?thesis
    proof (cases e)
      case (Some err)
      with Inr set step have "errs1 = errs @ [err]" "log1 = log @ [?w]"
        by (simp_all add: persist_task_def)
      with rest show ?thesis by (intro exI [of _ "err # es"] exI [of _ "?w # ws"]) simp
    next
      case None
      with Inr set step have "errs1 = errs" "log1 = log @ [?w]"
        "cms1 = cms[i := KzgCommitment ?sc]"
        by (simp_all add: persist_task_def)
      with rest Inr show ?thesis by (intro exI [of _ es] exI [of _ "?w # ws"]) simp
    qed
  qed
qed

section \<open>Persist, then GetBlobsFromStore (second variant)\<close>

lemma fold_list_update_length:
  "length (fold (\<lambda>i c. c[i := f i]) js xs) = length xs"
  by (induction js arbitrary: xs) auto

lemma fold_list_update_nth:
  "k < length xs \<Longrightarrow>
     fold (\<lambda>i c. c[i := f i]) js xs ! k = (if k \<in> set js then f k else xs ! k)"
proof (induction js arbitrary: xs)
  case Nil
  show ?case by simp
next
  case (Cons j js)
  then show ?case by (auto simp: nth_list_update)
qed

lemma fold_list_update_all:
  assumes "length xs = n" and "{..<n} \<subseteq> set js"
  shows "fold (\<lambda>i c. c[i := f i]) js xs = map f [0..<n]"
proof (rule nth_equalityI)
  show "length (fold (\<lambda>i c. c[i := f i]) js xs) = length (map f [0..<n])"
    using assms(1) by (simp add: fold_list_update_length)
next
  fix k
  assume "k < length (fold (\<lambda>i c. c[i := f i]) js xs)"
  then have k: "k < n" using assms(1) by (simp add: fold_list_update_length)
  with assms(2) have "k \<in> set js" by auto
  with k assms(1) show "fold (\<lambda>i c. c[i := f i]) js xs ! k = map f [0..<n] ! k"
    by (simp add: fold_list_update_nth)
qed

lemma fold_map_upd_lookup:
  "(\<exists>j \<in> set js. g j = key \<and> fold (\<lambda>i d. d(g i \<mapsto> v i)) js db key = Some (v j)) \<or>
   ((\<forall>j \<in> set js. g j \<noteq> key) \<and> fold (\<lambda>i d. d(g i \<mapsto> v i)) js db key = db key)"
proof (induction js arbitrary: db)
  case Nil
  show ?case by simp
next
  case (Cons j js)
  from Cons.IH [of "db(g j \<mapsto> v j)"] show ?case by (auto split: if_splits)
qed

lemma run_persist_tasks_MemDB:
  assumes "IndexDB s = MemDB"
    and "\<forall>sc \<in> set scs. MarshalSSZ s sc = Inr (enc sc)"
    and "\<forall>i \<in> set js. i < length scs"
  shows "run_persist_tasks s slot scs js (errs, cms, db) =
     (errs, fold (\<lambda>i c. c[i := KzgCommitment (scs ! i)]) js cms,
      fold (\<lambda>i d. d((slot, KzgCommitment (scs ! i)) \<mapsto> enc (scs ! i))) js db)"
  using assms(3)
proof (induction js arbitrary: cms db)
  case Nil
  show ?case by (simp add: run_persist_tasks_def)
next
  case (Cons j js)
  then have j: "j < length scs" by simp
  then have "MarshalSSZ s (scs ! j) = Inr (enc (scs ! j))" using assms(2) by simp
  then have step: "persist_task s slot j (scs ! j) (errs, cms, db) =
      (errs, cms[j := KzgCommitment (scs ! j)], db((slot, KzgCommitment (scs ! j)) \<mapsto> enc (scs ! j)))"
    by (simp add: persist_task_def assms(1) MemDB_def)
  from Cons.prems have "\<forall>i \<in> set js. i < length scs" by simp
  from Cons.IH [OF this] j step show ?case
    by (simp add: run_persist_tasks_def)
qed

lemma fetch_sidecars_all_found:
  assumes "\<forall>i < length cs. \<exists>bz. Get (IndexDB s) db slot (cs ! i) = Inr bz \<and> UnmarshalSSZ s bz = Inr (r i)"
    and "{..<length cs} \<subseteq> set js"
  shows "fetch_sidecars s js db slot cs = Inr (map (\<lambda>i. Some (r i)) [0..<length cs])"
proof -
  have run: "fold (\<lambda>i st. if i < length cs then get_task s db slot i (cs ! i) st else st) ks ([], xs)
          = ([], fold (\<lambda>i c. c[i := Some (r i)]) (filter (\<lambda>i. i < length cs) ks) xs)" for ks xs
  proof (induction ks arbitrary: xs)
    case Nil
    show ?case by simp
  next
    case (Cons k ks)
    show ?case
    proof (cases "k < length cs")
      case True
      with assms(1) obtain bz where "Get (IndexDB s) db slot (cs ! k) = Inr bz"
        and "UnmarshalSSZ s bz = Inr (r k)" by blast
      then have "get_task s db slot k (cs ! k) ([], xs) = ([], xs[k := Some (r k)])"
        by (simp add: get_task_def)
      with True Cons.IH show ?thesis by simp
    next
      case False
      with Cons.IH show ?thesis by simp
    qed
  qed
  have "{..<length cs} \<subseteq> set (filter (\<lambda>i. i < length cs) js)"
    using assms(2) by auto
  then have "fold (\<lambda>i c. c[i := Some (r i)]) (filter (\<lambda>i. i < length cs) js) (replicate (length cs) None)
      = map (\<lambda>i. Some (r i)) [0..<length cs]"
    by (intro fold_list_update_all) simp_all
  with run show ?thesis by (simp add: fetch_sidecars_def)
qed

lemma map_nth_upt: "map (\<lambda>i. f (xs ! i)) [0..<length xs] = map f xs"
  by (rule nth_equalityI) simp_all

lemma Persist_v2_within:
  assumes "sidecars = Some sc0 # rest" and "WithinDAPeriod s (HeaderSlot sc0) slot"
  shows "Persist_v2 s sched slot (Some sidecars) db =
     (case run_persist_tasks s slot (map the (takeWhile (\<lambda>sidecar. sidecar \<noteq> None) sidecars)) sched
             ([], replicate (length sidecars) [], db) of
        (errChan, commitments, db') \<Rightarrow>
          if length (takeWhile (\<lambda>sidecar. sidecar \<noteq> None) sidecars) < length sidecars
          then (Done (Some ErrAttemptedToStoreNilSidecar), db')
          else (case errChan of
                  err # _ \<Rightarrow> (Done (Some err), db')
                | [] \<Rightarrow>
                    (case Set (IndexDB s) db' slot SlotCommitmentsKey
                            (encode_commitments commitments) of
                       (Some err, db'') \<Rightarrow> (Done (Some err), db'')
                     | (None, db'') \<Rightarrow> (Done None, db''))))"
  unfolding assms(1) using assms(2) by (simp add: Persist_v2_def Let_def del: replicate.simps)

lemma takeWhile_all_Some:
  "(\<And>x. P (Some x)) \<Longrightarrow> takeWhile P (map Some scs) = map Some scs"
  by (induction scs) auto

lemma test_codec_faithful:
  "length c = 48 \<Longrightarrow> MarshalSSZ TestStore (mk_sidecar c b) = Inr (c @ b) \<and>
     UnmarshalSSZ TestStore (c @ b) = Inr (mk_sidecar c b)"
  by (simp add: TestStore_def test_MarshalSSZ_def test_UnmarshalSSZ_def mk_sidecar_def)

text \<open>
  The second variant does what C2 says. For every slot and every list of 1 to 6
  non-nil sidecars with 48-byte commitments, within the DA retention window, in which
  sidecars that share a commitment share their payload: \<open>Persist\<close> on the empty
  in-memory database succeeds, and \<open>GetBlobsFromStore\<close> then returns a collection
  equal to the input by commitment and by payload, in input order, whatever the
  order in which the goroutines of either call run and whatever the capacity of the
  slice the index record is read into. When the commitments are pairwise distinct,
  as they are within a slot, the collection is the input list itself. The sidecar
  codec is taken to be faithful on the sidecars of the list.
\<close>

lemma Persist_v2_round_trip:
  assumes mem: "IndexDB s = MemDB"
    and len: "1 \<le> length scs" "length scs \<le> 6"
    and da: "WithinDAPeriod s (HeaderSlot (hd scs)) slot"
    and size: "\<forall>sc \<in> set scs. length (KzgCommitment sc) = 48"
    and codec: "\<forall>sc \<in> set scs. \<exists>bz. MarshalSSZ s sc = Inr bz \<and> UnmarshalSSZ s bz = Inr sc"
    and same: "\<forall>a \<in> set scs. \<forall>b \<in> set scs. KzgCommitment a = KzgCommitment b \<longrightarrow> Blob a = Blob b"
    and sw: "is_schedule (length scs) sched_w"
    and sr: "is_schedule (length scs) sched_r"
  shows "\<exists>db' res.
           Persist_v2 s sched_w slot (Some (map Some scs)) Map.empty = (Done None, db') \<and>
           GetBlobsFromStore_v2 s sched_r spare db' slot = Done (Inr (map Some res)) \<and>
           map KzgCommitment res = map KzgCommitment scs \<and>
           map Blob res = map Blob scs \<and>
           (distinct (map KzgCommitment scs) \<longrightarrow> res = scs)"
proof -
  define n where "n = length scs"
  define cm where "cm i = KzgCommitment (scs ! i)" for i
  from codec obtain enc where
    enc: "\<forall>sc \<in> set scs. MarshalSSZ s sc = Inr (enc sc) \<and> UnmarshalSSZ s (enc sc) = Inr sc"
    by metis
  define D where
    "D = fold (\<lambda>i d. d((slot, KzgCommitment (scs ! i)) \<mapsto> enc (scs ! i))) sched_w Map.empty"
  define cms where "cms = map KzgCommitment scs"
  define D' where "D' = D((slot, SlotCommitmentsKey) \<mapsto> encode_commitments cms)"
  have sched_w: "set sched_w = {..<n}" and sched_r: "set sched_r = {..<n}"
    using sw sr by (simp_all add: is_schedule_def n_def)
  from len da obtain sc0 rest where scs: "map Some scs = Some sc0 # rest"
    and da0: "WithinDAPeriod s (HeaderSlot sc0) slot" by (cases scs) auto
  have "fold (\<lambda>i c. c[i := KzgCommitment (scs ! i)]) sched_w (replicate n [])
          = map (\<lambda>i. KzgCommitment (scs ! i)) [0..<n]"
    using sched_w by (intro fold_list_update_all) simp_all
  also have "\<dots> = cms" unfolding n_def cms_def by (rule map_nth_upt)
  finally have filled: "fold (\<lambda>i c. c[i := KzgCommitment (scs ! i)]) sched_w (replicate n []) = cms" .
  have "run_persist_tasks s slot scs sched_w ([], replicate n [], Map.empty) = ([], cms, D)"
    using run_persist_tasks_MemDB [OF mem, of scs enc sched_w slot "[]" "replicate n []" Map.empty]
      enc sched_w filled by (simp add: D_def n_def)
  then have persist: "Persist_v2 s sched_w slot (Some (map Some scs)) Map.empty = (Done None, D')"
    by (simp add: Persist_v2_within [OF scs da0] takeWhile_all_Some comp_def n_def D'_def
          mem MemDB_def)
  have cms_len: "length cms = n" by (simp add: cms_def n_def)
  have "decode_commitments (encode_commitments cms) spare = Done cms"
    using len size by (intro decode_encode_commitments) (auto simp: cms_def COMMITMENT_SIZE_def)
  then have get: "GetBlobsFromStore_v2 s sched_r spare D' slot
      = Done (fetch_sidecars s sched_r D' slot cms)"
    by (simp add: GetBlobsFromStore_v2_def mem MemDB_def D'_def)
  have stored: "\<exists>j < n. cm j = cm i \<and> D' (slot, cm i) = Some (enc (scs ! j))" if "i < n" for i
  proof -
    from that have "i \<in> set sched_w" using sched_w by simp
    with fold_map_upd_lookup
           [of sched_w "\<lambda>i. (slot, KzgCommitment (scs ! i))" "(slot, cm i)"
               "\<lambda>i. enc (scs ! i)" Map.empty]
    obtain j where "j \<in> set sched_w" and "cm j = cm i" and "D (slot, cm i) = Some (enc (scs ! j))"
      by (auto simp: D_def cm_def)
    moreover have "cm i \<noteq> SlotCommitmentsKey"
      using that size commitment_not_index_key [of "cm i"] by (simp add: cm_def n_def)
    ultimately show ?thesis using sched_w by (auto simp: D'_def)
  qed
  then obtain jf where
    jf: "\<forall>i < n. jf i < n \<and> cm (jf i) = cm i \<and> D' (slot, cm i) = Some (enc (scs ! jf i))"
    by metis
  define res where "res = map (\<lambda>i. scs ! jf i) [0..<n]"
  have "fetch_sidecars s sched_r D' slot cms = Inr (map (\<lambda>i. Some (scs ! jf i)) [0..<length cms])"
  proof (rule fetch_sidecars_all_found)
    show "{..<length cms} \<subseteq> set sched_r" using sched_r cms_len by simp
    show "\<forall>i<length cms. \<exists>bz. Get (IndexDB s) D' slot (cms ! i) = Inr bz \<and>
            UnmarshalSSZ s bz = Inr (scs ! jf i)"
    proof (intro allI impI)
      fix i assume "i < length cms"
      then have i: "i < n" using cms_len by simp
      then have "cms ! i = cm i" by (simp add: cms_def cm_def n_def)
      moreover from i jf have "D' (slot, cm i) = Some (enc (scs ! jf i))" and "jf i < n" by auto
      moreover from \<open>jf i < n\<close> have "UnmarshalSSZ s (enc (scs ! jf i)) = Inr (scs ! jf i)"
        using enc by (simp add: n_def)
      ultimately show "\<exists>bz. Get (IndexDB s) D' slot (cms ! i) = Inr bz \<and>
            UnmarshalSSZ s bz = Inr (scs ! jf i)"
        by (simp add: mem MemDB_def)
    qed
  qed
  then have fetched: "GetBlobsFromStore_v2 s sched_r spare D' slot = Done (Inr (map Some res))"
    using get cms_len by (simp add: res_def comp_def)
  have commitments: "map KzgCommitment res = map KzgCommitment scs"
  proof -
    have "map KzgCommitment res = map cm [0..<n]"
      using jf by (simp add: res_def cm_def)
    also have "\<dots> = map KzgCommitment scs"
      unfolding cm_def n_def by (rule map_nth_upt)
    finally show ?thesis .
  qed
  have blobs: "map Blob res = map Blob scs"
  proof -
    have "Blob (scs ! jf i) = Blob (scs ! i)" if "i < n" for i
    proof -
      from that jf have "jf i < n" and "cm (jf i) = cm i" by auto
      with that same show ?thesis by (simp add: cm_def n_def)
    qed
    then have "map Blob res = map (\<lambda>i. Blob (scs ! i)) [0..<n]"
      by (simp add: res_def)
    also have "\<dots> = map Blob scs" unfolding n_def by (rule map_nth_upt)
    finally show ?thesis .
  qed
  have same_list: "res = scs" if "distinct (map KzgCommitment scs)"
  proof -
    have "jf i = i" if "i < n" for i
    proof -
      from that jf have "jf i < n" and "cm (jf i) = cm i" by auto
      then have "map KzgCommitment scs ! jf i = map KzgCommitment scs ! i"
        using that by (simp add: cm_def n_def)
      moreover have "jf i < length (map KzgCommitment scs)" "i < length (map KzgCommitment scs)"
        using \<open>jf i < n\<close> that by (simp_all add: n_def)
      ultimately show ?thesis
        using \<open>distinct (map KzgCommitment scs)\<close> nth_eq_iff_index_eq by blast
    qed
    then have "res = map (\<lambda>i. scs ! i) [0..<n]" by (simp add: res_def)
    then show ?thesis by (simp add: n_def map_nth)
  qed
  from persist fetched commitments blobs same_list show ?thesis by blast
qed

text \<open>An instance: two sidecars, written in the order 1, 0 and read in the order 0, 1.\<close>

lemma Persist_v2_round_trip_instance:
  "fst (Persist_v2 TestStore [1, 0] 7
          (Some [Some (mk_sidecar commitment_a [1]), Some (mk_sidecar commitment_b [2])]) Map.empty)
     = Done None \<and>
   GetBlobsFromStore_v2 TestStore [0, 1] []
     (snd (Persist_v2 TestStore [1, 0] 7
             (Some [Some (mk_sidecar commitment_a [1]), Some (mk_sidecar commitment_b [2])]) Map.empty)) 7
     = Done (Inr [Some (mk_sidecar commitment_a [1]), Some (mk_sidecar commitment_b [2])])"
proof -
  let ?scs = "[mk_sidecar commitment_a [1], mk_sidecar commitment_b [2]]"
  have mem: "IndexDB TestStore = MemDB" by (simp add: TestStore_def)
  have da: "WithinDAPeriod TestStore (HeaderSlot (hd ?scs)) 7"
    by (simp add: TestStore_def mk_sidecar_def)
  have size: "\<forall>sc \<in> set ?scs. length (KzgCommitment sc) = 48"
    by (simp add: mk_sidecar_def)
  have codec: "\<forall>sc \<in> set ?scs. \<exists>bz. MarshalSSZ TestStore sc = Inr bz \<and> UnmarshalSSZ TestStore bz = Inr sc"
    using test_codec_faithful [of commitment_a "[1]"] test_codec_faithful [of commitment_b "[2]"]
    by simp
  have same: "\<forall>a \<in> set ?scs. \<forall>b \<in> set ?scs. KzgCommitment a = KzgCommitment b \<longrightarrow> Blob a = Blob b"
    by (simp add: mk_sidecar_def)
  have sched: "is_schedule 2 [1, 0]" "is_schedule 2 [0, 1]"
    by (auto simp: is_schedule_def)
  then have sw: "is_schedule (length ?scs) [1, 0]" and sr: "is_schedule (length ?scs) [0, 1]"
    by (simp_all add: numeral_2_eq_2)
  have dist: "distinct (map KzgCommitment ?scs)" by (simp add: mk_sidecar_def)
  from Persist_v2_round_trip [where spare = "[]", OF mem _ _ da size codec same sw sr] dist
  obtain db' where "Persist_v2 TestStore [1, 0] 7 (Some (map Some ?scs)) Map.empty = (Done None, db')"
    and "GetBlobsFromStore_v2 TestStore [0, 1] [] db' 7 = Done (Inr (map Some ?scs))"
    by auto
  then show ?thesis by simp
qed

text \<open>
  The first variant does not. Its \<open>Persist\<close> leaves the reserved index key as it
  found it, so after a \<open>Persist\<close> into a database that holds no index record for
  the slot, \<open>GetBlobsFromStore\<close> finds none and returns the empty collection,
  whatever was persisted.
\<close>

lemma persist_loop_MemDB_index:
  assumes "IndexDB s = MemDB"
    and "\<forall>sc. Some sc \<in> set sidecars \<longrightarrow> length (KzgCommitment sc) = 48"
  shows "snd (persist_loop s slot sidecars db) (slot', SlotCommitmentsKey)
           = db (slot', SlotCommitmentsKey)"
  using assms(2)
proof (induction sidecars arbitrary: db)
  case Nil
  show ?case by simp
next
  case (Cons x sidecars)
  show ?case
  proof (cases x)
    case None
    then show ?thesis by simp
  next
    case (Some sc)
    with Cons.prems have "KzgCommitment sc \<noteq> SlotCommitmentsKey"
      using commitment_not_index_key [of "KzgCommitment sc"] by simp
    moreover from Cons.prems
    have "\<forall>sc. Some sc \<in> set sidecars \<longrightarrow> length (KzgCommitment sc) = 48" by simp
    note Cons.IH [OF this]
    ultimately show ?thesis
      using Some by (simp add: assms(1) MemDB_def split: sum.splits)
  qed
qed

lemma Persist_v1_round_trip_empty:
  assumes "IndexDB s = MemDB"
    and "\<forall>sc. Some sc \<in> set sidecars \<longrightarrow> length (KzgCommitment sc) = 48"
    and "db (slot, SlotCommitmentsKey) = None"
  shows "GetBlobsFromStore_v1 s sched (snd (Persist_v1 s slot sidecars db)) slot = Done (Inr [])"
proof -
  have "snd (Persist_v1 s slot sidecars db) (slot, SlotCommitmentsKey) = None"
    using persist_loop_MemDB_index [OF assms(1,2), of slot db slot] assms(3)
    by (auto simp: Persist_v1_def split: list.splits option.splits prod.splits)
  then show ?thesis
    by (simp add: GetBlobsFromStore_v1_def assms(1) MemDB_def)
qed

text \<open>
  C2 fails in the first variant. Two sidecars with distinct commitments, within the
  DA period and faithfully encoded, are persisted into the empty database:
  \<open>Persist\<close> succeeds and both records are stored, and \<open>GetBlobsFromStore\<close>
  returns the empty collection, not the two sidecars.
\<close>

theorem Persist_v1_round_trip_returns_empty:
  "WithinDAPeriod TestStore (HeaderSlot (mk_sidecar commitment_a [1])) 7 \<and>
   UnmarshalSSZ TestStore (commitment_a @ [1]) = Inr (mk_sidecar commitment_a [1]) \<and>
   UnmarshalSSZ TestStore (commitment_b @ [2]) = Inr (mk_sidecar commitment_b [2]) \<and>
   Persist_v1 TestStore 7
     [Some (mk_sidecar commitment_a [1]), Some (mk_sidecar commitment_b [2])] Map.empty
     = (Done None, Map.empty((7, commitment_a) \<mapsto> commitment_a @ [1],
                             (7, commitment_b) \<mapsto> commitment_b @ [2])) \<and>
   GetBlobsFromStore_v1 TestStore [0, 1]
     (Map.empty((7, commitment_a) \<mapsto> commitment_a @ [1],
                (7, commitment_b) \<mapsto> commitment_b @ [2])) 7
     = Done (Inr [])"
  by (simp add: Persist_v1_def GetBlobsFromStore_v1_def test_defs)

section \<open>Persist on a list with a nil entry\<close>







section \<open>The index record\<close>

lemma takeWhile_full:
  assumes "\<not> length (takeWhile P xs) < length xs"
  shows "\<forall>x \<in> set xs. P x"
proof -
  have "length (takeWhile P xs) \<le> length xs" by (rule length_takeWhile_le)
  with assms have "length (takeWhile P xs) = length xs" by simp
  then have "takeWhile P xs = xs"
    using takeWhile_eq_take [of P xs] by simp
  then show ?thesis by simp
qed

lemma all_Some_map: "\<forall>x \<in> set xs. x \<noteq> None \<Longrightarrow> xs = map Some (map the xs)"
  by (induction xs) auto

text \<open>
  The second variant does what C3 says: a call that stores sidecars and succeeds has
  written one record per sidecar and then, last, the index record with the encoded
  commitments in input order.
\<close>

lemma Persist_v2_index_written_last:
  assumes ok: "Persist_v2 (with_log s) sched slot (Some (Some sc0 # rest)) (db, log)
                 = (Done None, (db', log'))"
    and da: "WithinDAPeriod s (HeaderSlot sc0) slot"
    and sched: "is_schedule (length (Some sc0 # rest)) sched"
  shows "\<exists>scs ws. Some sc0 # rest = map Some scs \<and>
           log' = log @ ws @ [(slot, SlotCommitmentsKey, encode_commitments (map KzgCommitment scs))] \<and>
           list_all2 (\<lambda>w i. \<exists>bz. MarshalSSZ s (scs ! i) = Inr bz \<and>
                              w = (slot, KzgCommitment (scs ! i), bz)) ws sched"
proof -
  let ?sidecars = "Some sc0 # rest"
  let ?taken = "takeWhile (\<lambda>sidecar. sidecar \<noteq> None) ?sidecars"
  let ?scs = "map the ?taken"
  have da0: "WithinDAPeriod (with_log s) (HeaderSlot sc0) slot" using da by simp
  obtain errs cms db2 log2 where
    run: "run_persist_tasks (with_log s) slot ?scs sched ([], replicate (length ?sidecars) [], (db, log))
            = (errs, cms, (db2, log2))"
    using prod_cases4 by blast
  note unfolded = ok [unfolded Persist_v2_within [OF refl da0] run]
  have full: "\<not> length ?taken < length ?sidecars"
    using unfolded by (auto split: if_splits)
  then have "\<forall>x \<in> set ?sidecars. x \<noteq> None" by (rule takeWhile_full)
  then have taken: "?taken = ?sidecars" by (simp only: takeWhile_eq_all_conv)
  from \<open>\<forall>x \<in> set ?sidecars. x \<noteq> None\<close> have shape: "?sidecars = map Some (map the ?sidecars)"
    by (rule all_Some_map)
  have n: "length ?scs = length ?sidecars" by (simp only: taken length_map)
  have errs: "errs = []"
    using unfolded full by (auto split: if_splits list.splits)
  obtain e where index: "Set (IndexDB s) db2 slot SlotCommitmentsKey (encode_commitments cms) = (e, db')"
      and "e = None" and log': "log' = log2 @ [(slot, SlotCommitmentsKey, encode_commitments cms)]"
    using unfolded full errs by (auto split: if_splits prod.splits option.splits)
  have in_range: "\<forall>i \<in> set sched. i < length ?scs"
    using sched unfolding n by (auto simp: is_schedule_def)
  from run_persist_tasks_trace [OF run in_range] errs obtain ws where
    ws: "log2 = log @ ws"
      "cms = fold (\<lambda>i c. c[i := KzgCommitment (?scs ! i)]) sched (replicate (length ?sidecars) [])"
      "list_all2 (\<lambda>w i. \<exists>bz. MarshalSSZ s (?scs ! i) = Inr bz \<and>
                          w = (slot, KzgCommitment (?scs ! i), bz)) ws sched"
    by auto
  have "cms = map (\<lambda>i. KzgCommitment (?scs ! i)) [0..<length ?scs]"
    unfolding ws(2) using sched unfolding n
    by (intro fold_list_update_all) (simp_all add: is_schedule_def)
  then have cms: "cms = map KzgCommitment ?scs" by (simp only: map_nth_upt)
  show ?thesis
    using shape ws(1,3) log' cms unfolding taken
    by (intro exI [of _ "map the ?sidecars"] exI [of _ ws]) simp
qed

text \<open>
  The first variant never writes under the reserved index key, whatever the sidecars
  and the database.
\<close>

lemma Persist_v1_never_writes_index_record:
  assumes size: "\<forall>sc. Some sc \<in> set sidecars \<longrightarrow> length (KzgCommitment sc) = 48"
    and run: "Persist_v1 (with_log s) slot sidecars (db, log) = (r, (db', log'))"
  shows "\<exists>ws. log' = log @ ws \<and> SlotCommitmentsKey \<notin> (\<lambda>w. fst (snd w)) ` set ws"
proof (cases "\<exists>r0. persist_loop (with_log s) slot sidecars (db, log) = (r0, (db', log'))")
  case True
  then obtain r0 where "persist_loop (with_log s) slot sidecars (db, log) = (r0, (db', log'))" ..
  from persist_loop_log [OF this] obtain ws where
    ws: "log' = log @ ws"
      "\<forall>w \<in> set ws. \<exists>sc \<in> set (map the (takeWhile (\<lambda>sidecar. sidecar \<noteq> None) sidecars)).
         fst (snd w) = KzgCommitment sc" by blast
  have "SlotCommitmentsKey \<notin> (\<lambda>w. fst (snd w)) ` set ws"
  proof
    assume "SlotCommitmentsKey \<in> (\<lambda>w. fst (snd w)) ` set ws"
    then obtain w where "w \<in> set ws" and key: "fst (snd w) = SlotCommitmentsKey" by force
    with ws(2) obtain x where "x \<in> set (takeWhile (\<lambda>sidecar. sidecar \<noteq> None) sidecars)"
      and "fst (snd w) = KzgCommitment (the x)" by auto
    then have "x \<in> set sidecars" and "x \<noteq> None" and "fst (snd w) = KzgCommitment (the x)"
      by (auto dest: set_takeWhileD)
    with size have "length (fst (snd w)) = 48" by auto
    with key commitment_not_index_key [of "fst (snd w)"] show False by simp
  qed
  with ws(1) show ?thesis by blast
next
  case False
  with run have "log' = log @ []"
    by (auto simp: Persist_v1_def split: list.splits option.splits if_splits prod.splits)
  then show ?thesis by (intro exI [of _ "[]"]) simp
qed

text \<open>
  C3 fails in the first variant. \<open>Persist\<close> of one sidecar succeeds and has issued
  one write, the sidecar's; no index record is written, so \<open>GetBlobsFromStore\<close> of
  the same variant finds no index record and returns the empty collection.
\<close>

theorem Persist_v1_writes_no_index_record:
  "WithinDAPeriod TestStore (HeaderSlot (mk_sidecar commitment_a [9])) 7 \<and>
   Persist_v1 (with_log TestStore) 7 [Some (mk_sidecar commitment_a [9])] (Map.empty, [])
     = (Done None, (Map.empty((7, commitment_a) \<mapsto> commitment_a @ [9]),
                    [(7, commitment_a, commitment_a @ [9])])) \<and>
   GetBlobsFromStore_v1 TestStore [0] (Map.empty((7, commitment_a) \<mapsto> commitment_a @ [9])) 7
     = Done (Inr [])"
  by (simp add: Persist_v1_def GetBlobsFromStore_v1_def test_defs)

section \<open>The order of the writes\<close>

text \<open>
  The first variant does what C4 says: the writes of a call are those of a prefix of
  the sidecar list, one after the other in input order.
\<close>

lemma Persist_v1_writes_in_input_order:
  assumes "Persist_v1 (with_log s) slot sidecars (db, log) = (r, (db', log'))"
  shows "\<exists>ws k. log' = log @ ws \<and> k \<le> length sidecars \<and>
           list_all2 (\<lambda>w x. \<exists>sc bz. x = Some sc \<and> MarshalSSZ s sc = Inr bz \<and>
                              w = (slot, KzgCommitment sc, bz)) ws (take k sidecars)"
proof (cases "\<exists>r0. persist_loop (with_log s) slot sidecars (db, log) = (r0, (db', log'))")
  case True
  then obtain r0 where "persist_loop (with_log s) slot sidecars (db, log) = (r0, (db', log'))" ..
  from persist_loop_trace [OF this] show ?thesis by blast
next
  case False
  with assms have "log' = log @ []"
    by (auto simp: Persist_v1_def split: list.splits option.splits if_splits prod.splits)
  then show ?thesis by (intro exI [of _ "[]"] exI [of _ 0]) simp
qed

text \<open>
  C4 fails in the second variant. Each sidecar is written by a goroutine of its own;
  when the goroutine of the second sidecar runs first, its write precedes the write
  of the first sidecar.
\<close>

theorem Persist_v2_writes_out_of_input_order:
  "is_schedule 2 [1, 0] \<and>
   Persist_v2 (with_log TestStore) [1, 0] 7
     (Some [Some (mk_sidecar commitment_a [8]), Some (mk_sidecar commitment_b [9])])
     (Map.empty, [])
   = (Done None,
      (Map.empty((7, commitment_b) \<mapsto> commitment_b @ [9],
                 (7, commitment_a) \<mapsto> commitment_a @ [8],
                 (7, SlotCommitmentsKey) \<mapsto> encode_commitments [commitment_a, commitment_b]),
       [(7, commitment_b, commitment_b @ [9]),
        (7, commitment_a, commitment_a @ [8]),
        (7, SlotCommitmentsKey, encode_commitments [commitment_a, commitment_b])]))"
  by (auto simp add: Persist_v2_def test_defs is_schedule_def run_persist_tasks_def
        persist_task_def)

section \<open>A malformed index record\<close>

text \<open>
  The first variant does what C5 says: an error of \<^verbatim>\<open>SlotCommitments.UnmarshalSSZ\<close>
  is returned to the caller.
\<close>

lemma GetBlobsFromStore_v1_decode_error:
  "Get (IndexDB s) db slot SlotCommitmentsKey = Inr raw \<Longrightarrow>
   SlotCommitments_UnmarshalSSZ s raw = Inl err \<Longrightarrow>
     GetBlobsFromStore_v1 s sched db slot = Done (Inl err)"
  by (simp add: GetBlobsFromStore_v1_def)

text \<open>
  The second variant returns no decode error for a malformed record. On an empty
  record it panics. On a record shorter than 1 + 48 times its count byte it panics
  when the capacity of the slice is too small as well; within the capacity it reads
  the backing array past the record and goes on with what it finds there.
\<close>

lemma GetBlobsFromStore_v2_empty_record_panics:
  "Get (IndexDB s) db slot SlotCommitmentsKey = Inr [] \<Longrightarrow>
     GetBlobsFromStore_v2 s sched spare db slot = Panics IndexOutOfRange"
  by (simp add: GetBlobsFromStore_v2_def decode_commitments_def)

lemma decode_loop_short:
  "\<exists>i \<in> set idx. length raw + length spare < 1 + i * COMMITMENT_SIZE + COMMITMENT_SIZE \<Longrightarrow>
     \<exists>p. decode_loop raw spare idx = Panics p"
proof (induction idx)
  case Nil
  then show ?case by simp
next
  case (Cons i idx)
  show ?case
  proof (cases "length raw + length spare < 1 + i * COMMITMENT_SIZE + COMMITMENT_SIZE")
    case True
    then show ?thesis by (simp add: slice_def Let_def)
  next
    case False
    with Cons.prems
    have "\<exists>i \<in> set idx. length raw + length spare < 1 + i * COMMITMENT_SIZE + COMMITMENT_SIZE"
      by simp
    from Cons.IH [OF this] show ?thesis
      by (auto simp: Let_def split: exec.splits)
  qed
qed

lemma GetBlobsFromStore_v2_short_capacity_panics:
  assumes "Get (IndexDB s) db slot SlotCommitmentsKey = Inr raw"
    and "raw \<noteq> []" and "length raw + length spare < 1 + 48 * unat (hd raw)"
  shows "\<exists>p. GetBlobsFromStore_v2 s sched spare db slot = Panics p"
proof -
  from assms(2) obtain count tail where raw: "raw = count # tail" by (cases raw) auto
  with assms(3) have short: "length raw + length spare < 1 + 48 * unat count" by simp
  then have "0 < unat count" using raw by (cases "unat count") simp_all
  then have "unat count - 1 \<in> set [0..<unat count]" by simp
  moreover
  have "length raw + length spare < 1 + (unat count - 1) * COMMITMENT_SIZE + COMMITMENT_SIZE"
    using short \<open>0 < unat count\<close> by (simp add: COMMITMENT_SIZE_def algebra_simps)
  ultimately have "\<exists>p. decode_loop raw spare [0..<unat count] = Panics p"
    by (intro decode_loop_short) blast
  with assms(1) raw show ?thesis
    by (auto simp: GetBlobsFromStore_v2_def decode_commitments_def)
qed

text \<open>
  A record of 4 bytes with count byte 1, read into a slice of capacity 64 whose
  backing array is zero past the record: the commitment decoded is 48 zero bytes,
  which the database does not hold, and the call returns the error of that read.
\<close>

lemma GetBlobsFromStore_v2_reads_past_record:
  "GetBlobsFromStore_v2 TestStore [0] (replicate 60 0)
     (Map.empty((7, SlotCommitmentsKey) \<mapsto> [1, 0, 0, 0])) 7 = Done (Inl ErrNotFound)"
proof -
  have "slice [1, 0, 0, 0] (replicate 60 0) (Suc 0) 49 = Done (replicate 48 (0 :: byte))"
    by (simp add: slice_def flip: replicate_add replicate_Suc)
  moreover have "replicate 48 (0 :: byte) \<noteq> SlotCommitmentsKey"
    using commitment_not_index_key [of "replicate 48 (0 :: byte)"] by simp
  ultimately show ?thesis
    by (simp add: GetBlobsFromStore_v2_def decode_commitments_def COMMITMENT_SIZE_def
          fetch_sidecars_def get_task_def TestStore_def MemDB_def)
qed

text \<open>
  C5 fails in the second variant. On an index record that is stored and empty,
  \<open>GetBlobsFromStore\<close> panics at \<^verbatim>\<open>serializedCommitments[0]\<close>, whatever the schedule
  and the capacity of the slice; it returns no decode error.
\<close>

theorem GetBlobsFromStore_v2_empty_index_panics:
  "GetBlobsFromStore_v2 TestStore sched spare (Map.empty((7, SlotCommitmentsKey) \<mapsto> [])) 7
     = Panics IndexOutOfRange"
  by (simp add: GetBlobsFromStore_v2_def decode_commitments_def TestStore_def MemDB_def)

end
